theory Spec2Isabelle
  imports Main
begin

section \<open>Log handling for AWS Batch jobs: \<^verbatim>\<open>nextstrain/cli/runner/aws_batch/logs.py\<close>\<close>

subsection \<open>Data\<close>

text \<open>
  A log entry is one element of the \<^verbatim>\<open>events\<close> list of a \<^verbatim>\<open>filter_log_events\<close>
  response page.  The code reads its \<^verbatim>\<open>eventId\<close> and \<^verbatim>\<open>timestamp\<close> keys and hands the
  whole entry to the consumer; \<open>message\<close> stands for the rest of the payload.  Both
  keys are present in every entry, as they are in the responses of the remote store: a
  dict without one of them, on which the subscript would raise, is not an entry.
\<close>

record entry =
  eventId :: string
  timestamp :: int
  message :: string

text \<open>
  A response page is a dict that may or may not have the key \<^verbatim>\<open>events\<close>
  (the code reads it with \<^verbatim>\<open>page.get("events", [])\<close>).
\<close>

record page =
  events :: "entry list option"

text \<open>
  The keyword arguments given to \<^verbatim>\<open>paginate\<close>.  The key \<^verbatim>\<open>startTime\<close> is optional:
  \<open>None\<close> means that the key is absent from the dict.
\<close>

record query =
  logGroupName :: string
  logStreamNames :: "string list"
  startTime :: "int option"

text \<open>
  What can be raised while the watcher runs.  The source declares no exception class of
  its own: the first two stand for what the remote client raises (transport or
  authorisation failure, unknown stream), the third for anything the consumer raises.
\<close>

datatype error = SourceUnavailable | StreamNotFound | ConsumerFailure

text \<open>
  The remote paginator \<^verbatim>\<open>boto3.client("logs").get_paginator("filter_log_events").paginate\<close>
  is outside the repository and is a parameter of the model.  It is lazy: it produces
  pages one by one and may raise after some of them, so its answer to a query is the
  list of pages it produces followed by the exception that ends it, if any.
\<close>

type_synonym paginate = "query \<Rightarrow> page list \<times> error option"

subsection \<open>\<^verbatim>\<open>fetch_stream\<close>\<close>

text \<open>Python's truth value of the argument \<^verbatim>\<open>start_time\<close>: \<^verbatim>\<open>None\<close> and \<^verbatim>\<open>0\<close> are false.\<close>

definition truthy :: "int option \<Rightarrow> bool" where
  "truthy start_time = (case start_time of None \<Rightarrow> False | Some t \<Rightarrow> t \<noteq> 0)"

definition build_query :: "string \<Rightarrow> int option \<Rightarrow> query" where
  "build_query strm start_time =
     (let q = \<lparr>logGroupName = ''/aws/batch/job'', logStreamNames = [strm], startTime = None\<rparr>
      in if truthy start_time then q\<lparr>startTime := start_time\<rparr> else q)"

definition page_events :: "page \<Rightarrow> entry list" where
  "page_events p = (case events p of None \<Rightarrow> [] | Some es \<Rightarrow> es)"

text \<open>
  \<^verbatim>\<open>fetch_stream\<close> is a generator: the entries it yields, in order, and the exception that
  ends the iteration, if any.  The exception of the paginator is raised after the entries
  of the pages produced before it have been yielded.
\<close>

definition fetch_stream :: "paginate \<Rightarrow> string \<Rightarrow> int option \<Rightarrow> entry list \<times> error option" where
  "fetch_stream log_events strm start_time =
     (case log_events (build_query strm start_time) of
        (pages, err) \<Rightarrow> (concat (map page_events pages), err))"

text \<open>
  The same function, call by call and step by step.  A call of \<^verbatim>\<open>fetch_stream\<close> runs
  none of its body: it makes a generator object that holds the arguments (and, in the
  model, the remote store the body will run against).  The first
  \<^verbatim>\<open>next\<close> builds the query and starts a pagination; from then on the object is
  suspended at the \<^verbatim>\<open>yield\<close>, holding the rest of the page it is yielding from, the pages
  the paginator has still to produce and the exception that will end the pagination, if
  any.  This is all the state there is: the function assigns to its own locals only.
\<close>

datatype generator =
    Created paginate string "int option"
  | Suspended "entry list" "page list" "error option"
  | Finished

datatype outcome = Yield entry | StopIteration | Raise error

text \<open>
  \<^verbatim>\<open>for page in log_events.paginate(**query): yield from page.get("events", [])\<close>, resumed
  with what is left of the current page, of the pages and the paginator's exception.
\<close>

fun resume :: "entry list \<Rightarrow> page list \<Rightarrow> error option \<Rightarrow> outcome \<times> generator" where
  "resume (e # es) ps err = (Yield e, Suspended es ps err)"
| "resume [] (p # ps) err = resume (page_events p) ps err"
| "resume [] [] (Some err) = (Raise err, Finished)"
| "resume [] [] None = (StopIteration, Finished)"

fun next_entry :: "generator \<Rightarrow> outcome \<times> generator" where
  "next_entry (Created log_events strm start_time) =
     (case log_events (build_query strm start_time) of (pages, err) \<Rightarrow> resume [] pages err)"
| "next_entry (Suspended es ps err) = resume es ps err"
| "next_entry Finished = (StopIteration, Finished)"

text \<open>
  The generator objects alive in the program, by address.  A call of \<^verbatim>\<open>fetch_stream\<close>
  allocates one; \<^verbatim>\<open>next\<close> on the object at an address advances that object (there is no
  object at an address beyond the heap); \<open>nexts\<close> performs a sequence of \<^verbatim>\<open>next\<close> calls
  on objects of the heap, in any interleaving, and logs the outcome of each with its
  address.
\<close>

type_synonym heap = "generator list"

definition call_fetch_stream :: "heap \<Rightarrow> paginate \<Rightarrow> string \<Rightarrow> int option \<Rightarrow> nat \<times> heap" where
  "call_fetch_stream h log_events strm start_time =
     (length h, h @ [Created log_events strm start_time])"

definition next_at :: "heap \<Rightarrow> nat \<Rightarrow> (outcome \<times> heap) option" where
  "next_at h a =
     (if a < length h
      then (case next_entry (h ! a) of (out, g') \<Rightarrow> Some (out, h[a := g']))
      else None)"

fun nexts :: "heap \<Rightarrow> nat list \<Rightarrow> (nat \<times> outcome) list \<times> heap" where
  "nexts h [] = ([], h)"
| "nexts h (a # as) =
     (case next_at h a of
        None \<Rightarrow> nexts h as
      | Some (out, h') \<Rightarrow> (case nexts h' as of (log, h'') \<Rightarrow> ((a, out) # log, h'')))"

subsection \<open>\<^verbatim>\<open>LogWatcher\<close>\<close>

text \<open>
  The attributes set by \<^verbatim>\<open>__init__\<close>.  The consumer returns \<open>None\<close> when it returns
  normally and \<open>Some err\<close> when it raises.  \<open>stopped\<close> is the flag of the
  \<^verbatim>\<open>threading.Event\<close>.
\<close>

record LogWatcher =
  stream :: string
  consumer :: "entry \<Rightarrow> error option"
  stopped :: bool

definition init :: "string \<Rightarrow> (entry \<Rightarrow> error option) \<Rightarrow> LogWatcher" where
  "init strm cons = \<lparr>stream = strm, consumer = cons, stopped = False\<rparr>"

definition stop :: "LogWatcher \<Rightarrow> LogWatcher" where
  "stop w = w\<lparr>stopped := True\<rparr>"

text \<open>
  The state of \<^verbatim>\<open>run\<close>: its two local variables \<open>last_timestamp\<close> and \<open>consumed\<close>,
  and three traces of what the loop has done so far, which are not variables of the
  source: the calls of \<^verbatim>\<open>fetch_stream\<close> (stream and \<^verbatim>\<open>start_time\<close>), the entries drawn
  from the generators by the \<^verbatim>\<open>for\<close> statement, and the entries the consumer has been
  called with.
\<close>

record run_state =
  last_timestamp :: "int option"
  consumed :: "string set"
  fetches :: "(string \<times> int option) list"
  yielded :: "entry list"
  delivered :: "entry list"

definition initial :: run_state where
  "initial = \<lparr>last_timestamp = None, consumed = {}, fetches = [], yielded = [], delivered = []\<rparr>"

text \<open>
  One pass through the body of the \<^verbatim>\<open>for\<close> loop, with the entry just drawn from the
  generator.  The result is the exception raised (by the consumer), if any, and the
  state at that point.
\<close>

definition process_entry :: "(entry \<Rightarrow> error option) \<Rightarrow> entry \<Rightarrow> run_state \<Rightarrow> error option \<times> run_state" where
  "process_entry cons e st =
     (let st0 = st\<lparr>yielded := yielded st @ [e]\<rparr> in
      if eventId e \<notin> consumed st0 then
        (let st1 = st0\<lparr>consumed := insert (eventId e) (consumed st0)\<rparr>;
             st2 = st1\<lparr>last_timestamp := Some (timestamp e)\<rparr>;
             st3 = st2\<lparr>delivered := delivered st2 @ [e]\<rparr>
         in (cons e, st3))
      else (None, st0))"

fun for_entries :: "(entry \<Rightarrow> error option) \<Rightarrow> entry list \<Rightarrow> run_state \<Rightarrow> error option \<times> run_state" where
  "for_entries cons [] st = (None, st)"
| "for_entries cons (e # es) st =
     (case process_entry cons e st of
        (Some err, st') \<Rightarrow> (Some err, st')
      | (None, st') \<Rightarrow> for_entries cons es st')"

text \<open>
  The body of the \<^verbatim>\<open>while\<close> loop: one call of \<^verbatim>\<open>fetch_stream\<close> and the \<^verbatim>\<open>for\<close> loop over
  what it yields.  When the generator ends with an exception, the exception is raised
  out of the \<^verbatim>\<open>for\<close> statement after the entries yielded before it have been processed.
\<close>

definition poll :: "LogWatcher \<Rightarrow> paginate \<Rightarrow> run_state \<Rightarrow> error option \<times> run_state" where
  "poll w log_events st =
     (let st0 = st\<lparr>fetches := fetches st @ [(stream w, last_timestamp st)]\<rparr> in
      case fetch_stream log_events (stream w) (last_timestamp st) of
        (es, gen_err) \<Rightarrow>
          (case for_entries (consumer w) es st0 of
             (Some err, st') \<Rightarrow> (Some err, st')
           | (None, st') \<Rightarrow> (gen_err, st')))"

text \<open>
  The watcher thread runs against its environment, given as a schedule of events:
  \<^item> \<open>CallStop\<close>: another thread calls \<^verbatim>\<open>stop()\<close>;
  \<^item> \<open>Check log_events\<close>: the watcher's \<^verbatim>\<open>self.stopped.wait(0.2)\<close> at the top of the loop
    returns; when it returns false the body runs against the remote store as it is at
    that moment, \<open>log_events\<close>.
  A call of \<^verbatim>\<open>stop()\<close> while the body runs is seen at the next check only, so it stands
  after that body's \<open>Check\<close> in the schedule.  The schedule is finite; a loop that has not
  left when the schedule ends is still \<open>Looping\<close>.
\<close>

datatype event = CallStop | Check paginate

datatype status = Looping | Returned | Raised error

fun run_loop :: "LogWatcher \<Rightarrow> event list \<Rightarrow> run_state \<Rightarrow> status \<times> run_state" where
  "run_loop w [] st = (Looping, st)"
| "run_loop w (CallStop # evs) st = run_loop (stop w) evs st"
| "run_loop w (Check log_events # evs) st =
     (if stopped w then (Returned, st)
      else (case poll w log_events st of
              (Some err, st') \<Rightarrow> (Raised err, st')
            | (None, st') \<Rightarrow> run_loop w evs st'))"

definition run :: "LogWatcher \<Rightarrow> event list \<Rightarrow> status \<times> run_state" where
  "run w evs = run_loop w evs initial"

text \<open>The thread is alive until \<^verbatim>\<open>run\<close> has returned or raised; \<^verbatim>\<open>join()\<close> returns when it is not.\<close>

definition is_alive :: "status \<Rightarrow> bool" where
  "is_alive s = (s = Looping)"

subsection \<open>Notions used to state the properties\<close>

text \<open>
  The entries of a list whose \<^verbatim>\<open>eventId\<close> does not occur at an earlier position, in
  the order of the list: the first appearance of each distinct id.
\<close>

definition first_appearances :: "entry list \<Rightarrow> entry list" where
  "first_appearances es =
     map (\<lambda>i. es ! i)
       (filter (\<lambda>i. eventId (es ! i) \<notin> eventId ` set (take i es)) [0..<length es])"

text \<open>
  The concatenation of what the calls of \<^verbatim>\<open>fetch_stream\<close> made by a run return, poll
  after poll, each call with the \<^verbatim>\<open>start_time\<close> the run has reached.
\<close>

fun fetched :: "LogWatcher \<Rightarrow> event list \<Rightarrow> run_state \<Rightarrow> entry list" where
  "fetched w [] st = []"
| "fetched w (CallStop # evs) st = fetched (stop w) evs st"
| "fetched w (Check log_events # evs) st =
     (if stopped w then []
      else fst (fetch_stream log_events (stream w) (last_timestamp st)) @
        (case poll w log_events st of
           (Some err, st') \<Rightarrow> []
         | (None, st') \<Rightarrow> fetched w evs st'))"

text \<open>The order on values of \<^verbatim>\<open>start_time\<close>: \<^verbatim>\<open>None\<close> is no lower bound, below every timestamp.\<close>

fun cursor_le :: "int option \<Rightarrow> int option \<Rightarrow> bool" where
  "cursor_le None c = True"
| "cursor_le (Some a) None = False"
| "cursor_le (Some a) (Some b) = (a \<le> b)"

text \<open>
  The precondition of cursor monotonicity: against this remote store, every entry that a
  fetch of the stream with a \<^verbatim>\<open>start_time\<close> returns has its timestamp at or after it.
\<close>

definition honours_start_time :: "string \<Rightarrow> paginate \<Rightarrow> bool" where
  "honours_start_time strm log_events =
     (\<forall>t. \<forall>e \<in> set (fst (fetch_stream log_events strm (Some t))). t \<le> timestamp e)"

text \<open>
  The invariant of the loop: the seen-set holds the ids of the entries drawn so far, and
  the consumer has been called with the first appearance of each.
\<close>

definition dedup_inv :: "run_state \<Rightarrow> bool" where
  "dedup_inv st =
     (consumed st = eventId ` set (yielded st) \<and> delivered st = first_appearances (yielded st))"

text \<open>
  The \<^verbatim>\<open>start_time\<close> values of the fetches so far never decrease, and none is above the cursor.
\<close>

definition cursor_inv :: "run_state \<Rightarrow> bool" where
  "cursor_inv st =
     (sorted_wrt cursor_le (map snd (fetches st))
      \<and> (\<forall>c \<in> set (map snd (fetches st)). cursor_le c (last_timestamp st)))"

text \<open>The cursor is the timestamp of the entry delivered last, if any.\<close>

definition last_inv :: "run_state \<Rightarrow> bool" where
  "last_inv st =
     (last_timestamp st = (if delivered st = [] then None else Some (timestamp (last (delivered st)))))"

text \<open>
  The consumer has returned normally on every entry it has been called with; and the
  state in which a step ends with outcome \<open>r\<close>: when an exception was raised, either
  the consumer has returned normally on every entry so far, or it has on all but the
  last and has raised this exception on the last.
\<close>

definition accepted :: "(entry \<Rightarrow> error option) \<Rightarrow> run_state \<Rightarrow> bool" where
  "accepted cons st = (\<forall>e \<in> set (delivered st). cons e = None)"

definition applied :: "(entry \<Rightarrow> error option) \<Rightarrow> error option \<Rightarrow> run_state \<Rightarrow> bool" where
  "applied cons r st =
     (case r of
        None \<Rightarrow> accepted cons st
      | Some err \<Rightarrow>
          accepted cons st
          \<or> (delivered st \<noteq> []
              \<and> (\<forall>e \<in> set (butlast (delivered st)). cons e = None)
              \<and> cons (last (delivered st)) = Some err))"

fun settled :: "(entry \<Rightarrow> error option) \<Rightarrow> status \<Rightarrow> run_state \<Rightarrow> bool" where
  "settled cons Looping st = accepted cons st"
| "settled cons Returned st = accepted cons st"
| "settled cons (Raised err) st = applied cons (Some err) st"

text \<open>
  The outcomes logged for the object at an address; the first \<open>n\<close> outcomes of \<^verbatim>\<open>next\<close>
  on a generator that has these entries still to yield and ends in this way (after its
  end, \<^verbatim>\<open>next\<close> raises \<^verbatim>\<open>StopIteration\<close>); how a generator ends; and what a generator
  object has still to yield.
\<close>

definition outcomes_at :: "nat \<Rightarrow> (nat \<times> outcome) list \<Rightarrow> outcome list" where
  "outcomes_at a log = map snd (filter (\<lambda>p. fst p = a) log)"

fun expected :: "entry list \<times> error option \<Rightarrow> nat \<Rightarrow> outcome list" where
  "expected c 0 = []"
| "expected (e # es, r) (Suc n) = Yield e # expected (es, r) n"
| "expected ([], Some err) (Suc n) = Raise err # expected ([], None) n"
| "expected ([], None) (Suc n) = StopIteration # expected ([], None) n"

definition ending :: "error option \<Rightarrow> outcome" where
  "ending r = (case r of None \<Rightarrow> StopIteration | Some err \<Rightarrow> Raise err)"

fun contents :: "generator \<Rightarrow> entry list \<times> error option" where
  "contents (Created log_events strm start_time) = fetch_stream log_events strm start_time"
| "contents (Suspended es ps err) = (es @ concat (map page_events ps), err)"
| "contents Finished = ([], None)"

subsection \<open>A sample environment\<close>

text \<open>
  For the examples: a remote store that holds the entries \<open>store\<close> and answers a query
  with one page of the stored entries whose timestamp is at or after the query's
  \<^verbatim>\<open>startTime\<close>, all of them when the query has none; a store that is unreachable; and
  a consumer that accepts every entry, and one that raises on the entry with a given id.
\<close>

definition remote_store :: "entry list \<Rightarrow> paginate" where
  "remote_store store q =
     ([\<lparr>events = Some (filter (\<lambda>e. case startTime q of None \<Rightarrow> True | Some t \<Rightarrow> t \<le> timestamp e) store)\<rparr>],
      None)"

definition unreachable :: paginate where
  "unreachable q = ([], Some SourceUnavailable)"

definition accept :: "entry \<Rightarrow> error option" where
  "accept e = None"

definition reject :: "string \<Rightarrow> entry \<Rightarrow> error option" where
  "reject i e = (if eventId e = i then Some ConsumerFailure else None)"

definition entry0 :: entry where
  "entry0 = \<lparr>eventId = ''0'', timestamp = 50, message = ''zero''\<rparr>"

definition entry1 :: entry where
  "entry1 = \<lparr>eventId = ''1'', timestamp = 100, message = ''one''\<rparr>"

definition entry2 :: entry where
  "entry2 = \<lparr>eventId = ''2'', timestamp = 101, message = ''two''\<rparr>"

definition entry3 :: entry where
  "entry3 = \<lparr>eventId = ''3'', timestamp = 105, message = ''three''\<rparr>"

text \<open>
  Two watchers of the stream \<^verbatim>\<open>job\<close>, and the first scenario of the specification: the
  first poll finds entries 1 and 2, the second, from timestamp 101 on, entries 2 and 3;
  then \<^verbatim>\<open>stop()\<close> is called and the loop leaves at its next check.
\<close>

definition watcher :: LogWatcher where
  "watcher = init ''job'' accept"

definition picky :: LogWatcher where
  "picky = init ''job'' (reject ''2'')"

definition scenario1 :: "event list" where
  "scenario1 =
     [Check (remote_store [entry1, entry2]),
      Check (remote_store [entry1, entry2, entry3]),
      CallStop,
      Check (remote_store [entry1, entry2, entry3])]"

text \<open>A schedule of two polls that both find entries 1, 2 and 3.\<close>

definition scenario2 :: "event list" where
  "scenario2 =
     [Check (remote_store [entry1, entry2, entry3]),
      Check (remote_store [entry1, entry2, entry3])]"

text \<open>The states of a run after entry 1, and after entries 1 and 2, of a first poll.\<close>

definition after_entry1 :: run_state where
  "after_entry1 =
     \<lparr>last_timestamp = Some 100, consumed = {''1''}, fetches = [(''job'', None)],
      yielded = [entry1], delivered = [entry1]\<rparr>"

definition after_entry2 :: run_state where
  "after_entry2 =
     \<lparr>last_timestamp = Some 101, consumed = {''2'', ''1''}, fetches = [(''job'', None)],
      yielded = [entry1, entry2], delivered = [entry1, entry2]\<rparr>"

section \<open>Properties\<close>

lemmas sample_defs = watcher_def picky_def scenario1_def init_def accept_def reject_def
  remote_store_def unreachable_def entry0_def entry1_def entry2_def entry3_def
  after_entry1_def after_entry2_def

lemmas code_defs = run_def initial_def poll_def fetch_stream_def build_query_def truthy_def
  page_events_def process_entry_def stop_def Let_def

subsection \<open>Stopping\<close>

lemma stopped_stop: "stopped (stop w)"
  by (simp add: stop_def)

lemma stop_stop: "stop (stop w) = stop w"
  by (simp add: stop_def)

subsection \<open>Invariants of the loop\<close>

text \<open>
  A property of the state that every pass through the \<^verbatim>\<open>for\<close> body keeps, and that does
  not depend on the trace of fetches, holds after every poll; a property that every poll
  keeps holds throughout a run.
\<close>

lemma for_entries_invariant:
  assumes step: "\<And>e st. I st \<Longrightarrow> I (snd (process_entry cons e st))"
    and init: "I st"
  shows "I (snd (for_entries cons es st))"
  using init
proof (induction es arbitrary: st)
  case Nil
  then show ?case by simp
next
  case (Cons e es)
  from Cons.prems have "I (snd (process_entry cons e st))"
    by (rule step)
  with Cons.IH show ?case
    by (cases "process_entry cons e st") (auto split: option.splits)
qed

lemma poll_invariant:
  assumes step: "\<And>cons e st. I st \<Longrightarrow> I (snd (process_entry cons e st))"
    and frame: "\<And>st fs. I st \<Longrightarrow> I (st\<lparr>fetches := fs\<rparr>)"
    and init: "I st"
  shows "I (snd (poll w log_events st))"
proof -
  obtain es gen_err where f: "fetch_stream log_events (stream w) (last_timestamp st) = (es, gen_err)"
    by (cases "fetch_stream log_events (stream w) (last_timestamp st)")
  let ?st0 = "st\<lparr>fetches := fetches st @ [(stream w, last_timestamp st)]\<rparr>"
  from init have "I ?st0" by (rule frame)
  then have "I (snd (for_entries (consumer w) es ?st0))"
    by (rule for_entries_invariant [rotated]) (rule step)
  then show ?thesis
    by (cases "for_entries (consumer w) es ?st0") (auto simp: poll_def f Let_def split: option.splits)
qed

lemma run_loop_invariant:
  assumes step: "\<And>w log_events st. I st \<Longrightarrow> I (snd (poll w log_events st))"
    and init: "I st"
  shows "I (snd (run_loop w evs st))"
  using init
proof (induction w evs st rule: run_loop.induct)
  case (1 w st)
  then show ?case by simp
next
  case (2 w evs st)
  then show ?case by simp
next
  case (3 w log_events evs st)
  show ?case
  proof (cases "stopped w")
    case True
    with 3 show ?thesis by simp
  next
    case False
    have p: "I (snd (poll w log_events st))" using "3.prems" by (rule step)
    show ?thesis
    proof (cases "poll w log_events st")
      case (Pair r st')
      with p have inv': "I st'" by simp
      show ?thesis
      proof (cases r)
        case None
        with False Pair inv' "3.IH" show ?thesis by simp
      next
        case (Some err)
        with False Pair inv' show ?thesis by simp
      qed
    qed
  qed
qed

lemma scenario1_run:
  "run watcher scenario1 =
     (Returned,
      \<lparr>last_timestamp = Some 105, consumed = {''3'', ''2'', ''1''},
       fetches = [(''job'', None), (''job'', Some 101)],
       yielded = [entry1, entry2, entry2, entry3],
       delivered = [entry1, entry2, entry3]\<rparr>)"
  by (simp add: sample_defs code_defs)

lemma scenario1_fetched: "fetched watcher scenario1 initial = [entry1, entry2, entry2, entry3]"
  by (simp add: sample_defs code_defs)

lemma scenario1_first: "first_appearances [entry1, entry2, entry2, entry3] = [entry1, entry2, entry3]"
  by (simp add: first_appearances_def upt_rec entry1_def entry2_def entry3_def)

lemma watcher_accepts: "\<forall>e. consumer watcher e = None"
  by (simp add: watcher_def init_def accept_def)

subsection \<open>De-duplication\<close>

lemma first_appearances_Nil: "first_appearances [] = []"
  by (simp add: first_appearances_def)

lemma first_appearances_snoc:
  "first_appearances (es @ [e]) =
     first_appearances es @ (if eventId e \<in> eventId ` set es then [] else [e])"
proof -
  let ?P = "\<lambda>xs i. eventId (xs ! i) \<notin> eventId ` set (take i xs)"
  let ?n = "length es"
  have f: "filter (?P (es @ [e])) [0..<?n] = filter (?P es) [0..<?n]"
    by (rule filter_cong) (auto simp: nth_append)
  have m: "map ((!) (es @ [e])) (filter (?P es) [0..<?n]) = map ((!) es) (filter (?P es) [0..<?n])"
    by (rule map_cong) (auto simp: nth_append)
  have old: "map ((!) (es @ [e])) (filter (?P (es @ [e])) [0..<?n]) = first_appearances es"
    unfolding f m first_appearances_def ..
  have new: "map ((!) (es @ [e])) (filter (?P (es @ [e])) [?n]) =
               (if eventId e \<in> eventId ` set es then [] else [e])"
    by simp
  have "first_appearances (es @ [e]) =
          map ((!) (es @ [e])) (filter (?P (es @ [e])) ([0..<?n] @ [?n]))"
    by (simp only: first_appearances_def length_append_singleton upt_Suc_append le0)
  also have "\<dots> = map ((!) (es @ [e])) (filter (?P (es @ [e])) [0..<?n]) @
                    map ((!) (es @ [e])) (filter (?P (es @ [e])) [?n])"
    by (simp only: filter_append map_append)
  finally show ?thesis
    by (simp only: old new)
qed

lemma set_first_appearances: "eventId ` set (first_appearances es) = eventId ` set es"
  by (induction es rule: rev_induct) (auto simp: first_appearances_Nil first_appearances_snoc)

lemma distinct_first_appearances: "distinct (map eventId (first_appearances es))"
proof (induction es rule: rev_induct)
  case Nil
  show ?case by (simp add: first_appearances_Nil)
next
  case (snoc e es)
  have "eventId e \<notin> eventId ` set es \<Longrightarrow> eventId e \<notin> eventId ` set (first_appearances es)"
    by (simp add: set_first_appearances)
  with snoc show ?case
    by (simp add: first_appearances_snoc)
qed

lemma map_eventId_first_appearances:
  "map eventId (first_appearances es) = rev (remdups (rev (map eventId es)))"
  by (induction es rule: rev_induct) (auto simp: first_appearances_Nil first_appearances_snoc)

lemma count_list_distinct: "distinct xs \<Longrightarrow> count_list xs x = (if x \<in> set xs then 1 else 0)"
  by (induction xs) auto

lemma dedup_inv_initial: "dedup_inv initial"
  by (simp add: dedup_inv_def initial_def first_appearances_Nil)

lemma process_entry_inv: "dedup_inv st \<Longrightarrow> dedup_inv (snd (process_entry cons e st))"
  by (auto simp: dedup_inv_def process_entry_def Let_def first_appearances_snoc)

lemma poll_inv: "dedup_inv st \<Longrightarrow> dedup_inv (snd (poll w log_events st))"
proof (rule poll_invariant [where I = dedup_inv, rotated 2])
  show "\<And>cons e st. dedup_inv st \<Longrightarrow> dedup_inv (snd (process_entry cons e st))"
    by (rule process_entry_inv)
  show "\<And>st fs. dedup_inv st \<Longrightarrow> dedup_inv (st\<lparr>fetches := fs\<rparr>)"
    by (simp add: dedup_inv_def)
qed

lemma run_dedup_inv: "dedup_inv (snd (run w evs))"
  unfolding run_def by (rule run_loop_invariant [where I = dedup_inv, OF poll_inv dedup_inv_initial])

text \<open>When the consumer never raises, the entries drawn are all the entries fetched.\<close>

lemma for_entries_no_raise:
  "\<forall>e. cons e = None \<Longrightarrow>
   fst (for_entries cons es st) = None \<and> yielded (snd (for_entries cons es st)) = yielded st @ es"
  by (induction es arbitrary: st) (auto simp: process_entry_def Let_def)

lemma poll_yielded:
  assumes "\<forall>e. consumer w e = None"
  shows "yielded (snd (poll w log_events st)) =
           yielded st @ fst (fetch_stream log_events (stream w) (last_timestamp st))"
proof -
  obtain es gen_err where f: "fetch_stream log_events (stream w) (last_timestamp st) = (es, gen_err)"
    by (cases "fetch_stream log_events (stream w) (last_timestamp st)")
  let ?st0 = "st\<lparr>fetches := fetches st @ [(stream w, last_timestamp st)]\<rparr>"
  from assms for_entries_no_raise [of "consumer w" es ?st0]
  have "fst (for_entries (consumer w) es ?st0) = None"
    and "yielded (snd (for_entries (consumer w) es ?st0)) = yielded st @ es"
    by simp_all
  then show ?thesis
    by (cases "for_entries (consumer w) es ?st0") (simp add: poll_def f Let_def)
qed

lemma run_loop_yielded:
  "\<forall>e. consumer w e = None \<Longrightarrow>
   yielded (snd (run_loop w evs st)) = yielded st @ fetched w evs st"
proof (induction w evs st rule: run_loop.induct)
  case (1 w st)
  then show ?case by simp
next
  case (2 w evs st)
  then show ?case by (simp add: stop_def)
next
  case (3 w log_events evs st)
  show ?case
  proof (cases "stopped w")
    case True
    then show ?thesis by simp
  next
    case False
    note y = poll_yielded [OF "3.prems", of log_events st]
    show ?thesis
    proof (cases "poll w log_events st")
      case (Pair r st')
      show ?thesis
      proof (cases r)
        case None
        with False Pair y "3.IH" "3.prems" show ?thesis by simp
      next
        case (Some err)
        with False Pair y show ?thesis by simp
      qed
    qed
  qed
qed

lemma run_yielded: "\<forall>e. consumer w e = None \<Longrightarrow> yielded (snd (run w evs)) = fetched w evs initial"
  using run_loop_yielded [of w evs initial] by (simp add: run_def initial_def)

text \<open>The entries in \<open>delivered\<close> are the entries the consumer has been applied to.\<close>

lemma process_entry_applied:
  "accepted cons st \<Longrightarrow> applied cons (fst (process_entry cons e st)) (snd (process_entry cons e st))"
  by (auto simp: accepted_def applied_def process_entry_def Let_def split: option.splits)

lemma for_entries_applied:
  "accepted cons st \<Longrightarrow> applied cons (fst (for_entries cons es st)) (snd (for_entries cons es st))"
proof (induction es arbitrary: st)
  case Nil
  then show ?case by (simp add: applied_def)
next
  case (Cons e es)
  show ?case
  proof (cases "process_entry cons e st")
    case (Pair r st')
    with process_entry_applied [OF Cons.prems, of e] have a: "applied cons r st'" by simp
    show ?thesis
    proof (cases r)
      case None
      with a have "accepted cons st'" by (simp add: applied_def)
      with Cons.IH [of st'] Pair None show ?thesis by simp
    next
      case (Some err)
      with a Pair show ?thesis by simp
    qed
  qed
qed

lemma poll_applied:
  assumes "accepted (consumer w) st"
  shows "applied (consumer w) (fst (poll w log_events st)) (snd (poll w log_events st))"
proof -
  obtain es gen_err where f: "fetch_stream log_events (stream w) (last_timestamp st) = (es, gen_err)"
    by (cases "fetch_stream log_events (stream w) (last_timestamp st)")
  let ?st0 = "st\<lparr>fetches := fetches st @ [(stream w, last_timestamp st)]\<rparr>"
  from assms have "accepted (consumer w) ?st0" by (simp add: accepted_def)
  then have a: "applied (consumer w) (fst (for_entries (consumer w) es ?st0))
                  (snd (for_entries (consumer w) es ?st0))"
    by (rule for_entries_applied)
  show ?thesis
  proof (cases "for_entries (consumer w) es ?st0")
    case (Pair r st')
    with a show ?thesis
      by (cases r; cases gen_err) (auto simp: poll_def f Let_def applied_def)
  qed
qed

lemma consumer_stop: "consumer (stop w) = consumer w"
  by (simp add: stop_def)

lemma run_loop_settled:
  "accepted (consumer w) st \<Longrightarrow>
   settled (consumer w) (fst (run_loop w evs st)) (snd (run_loop w evs st))"
proof (induction w evs st rule: run_loop.induct)
  case (1 w st)
  then show ?case by simp
next
  case (2 w evs st)
  then show ?case by (simp add: consumer_stop)
next
  case (3 w log_events evs st)
  show ?case
  proof (cases "stopped w")
    case True
    with "3.prems" show ?thesis by simp
  next
    case False
    note a = poll_applied [OF "3.prems", of log_events]
    show ?thesis
    proof (cases "poll w log_events st")
      case (Pair r st')
      show ?thesis
      proof (cases r)
        case None
        with a Pair have "accepted (consumer w) st'" by (simp add: applied_def)
        with "3.IH" [OF False Pair [symmetric] None] False Pair None show ?thesis by simp
      next
        case (Some err)
        with a False Pair show ?thesis by simp
      qed
    qed
  qed
qed

lemma run_applied:
  "(\<forall>e \<in> set (butlast (delivered (snd (run w evs)))). consumer w e = None)
   \<and> ((\<forall>err. fst (run w evs) \<noteq> Raised err) \<longrightarrow>
        (\<forall>e \<in> set (delivered (snd (run w evs))). consumer w e = None))
   \<and> (delivered (snd (run w evs)) \<noteq> [] \<and> consumer w (last (delivered (snd (run w evs)))) = Some err
        \<longrightarrow> fst (run w evs) = Raised err)"
proof -
  have "accepted (consumer w) initial" by (simp add: accepted_def initial_def)
  from run_loop_settled [OF this, of evs]
  have "settled (consumer w) (fst (run w evs)) (snd (run w evs))"
    by (simp add: run_def)
  then show ?thesis
    by (cases "fst (run w evs)")
      (auto simp: applied_def accepted_def dest: in_set_butlastD)
qed

lemma picky_run: "run picky scenario2 = (Raised ConsumerFailure, after_entry2)"
  by (simp add: sample_defs scenario2_def code_defs)

lemma picky_first: "first_appearances [entry1, entry2] = [entry1, entry2]"
  by (simp add: first_appearances_def upt_rec entry1_def entry2_def)

lemma picky_consumer:
  "consumer picky entry1 = None \<and> consumer picky entry2 = Some ConsumerFailure"
  by (simp add: picky_def init_def reject_def entry1_def entry2_def)

text \<open>
  C1: exactly-once delivery.  In every run, over every schedule, the ids the consumer
  has been called with are exactly the ids of the entries drawn from
  \<^verbatim>\<open>fetch_stream\<close>'s generators, each of them once: none is missing, none is repeated.
  When the consumer never raises, the entries drawn are all the entries the calls of
  \<^verbatim>\<open>fetch_stream\<close> returned.  The entries recorded as delivered are the ones the
  consumer has been applied to: it has returned normally on each but the last, on the
  last too unless the run has raised, and if it raises on the last the run ends with
  that exception.
\<close>

theorem exactly_once:
  "set (map eventId (delivered (snd (run w evs)))) = set (map eventId (yielded (snd (run w evs))))
   \<and> distinct (map eventId (delivered (snd (run w evs))))
   \<and> count_list (map eventId (delivered (snd (run w evs)))) i =
       (if i \<in> set (map eventId (yielded (snd (run w evs)))) then 1 else 0)
   \<and> ((\<forall>e. consumer w e = None) \<longrightarrow> yielded (snd (run w evs)) = fetched w evs initial)
   \<and> (\<forall>e \<in> set (butlast (delivered (snd (run w evs)))). consumer w e = None)
   \<and> ((\<forall>err. fst (run w evs) \<noteq> Raised err) \<longrightarrow>
        (\<forall>e \<in> set (delivered (snd (run w evs))). consumer w e = None))
   \<and> (delivered (snd (run w evs)) \<noteq> [] \<and> consumer w (last (delivered (snd (run w evs)))) = Some err
        \<longrightarrow> fst (run w evs) = Raised err)"
proof -
  let ?st = "snd (run w evs)"
  have d: "delivered ?st = first_appearances (yielded ?st)"
    using run_dedup_inv [of w evs] by (simp add: dedup_inv_def)
  have s: "set (map eventId (delivered ?st)) = set (map eventId (yielded ?st))"
    by (simp add: d set_first_appearances)
  have t: "distinct (map eventId (delivered ?st))"
    unfolding d by (rule distinct_first_appearances)
  have c: "count_list (map eventId (delivered ?st)) i =
             (if i \<in> set (map eventId (yielded ?st)) then 1 else 0)"
    using count_list_distinct [OF t, of i] by (simp only: s)
  from s t c run_yielded [of w evs] run_applied [of w evs err] show ?thesis
    by blast
qed

theorem exactly_once_witness:
  "(\<forall>e. consumer watcher e = None)
   \<and> set (map eventId (delivered (snd (run watcher scenario1)))) = {''1'', ''2'', ''3''}
   \<and> distinct (map eventId (delivered (snd (run watcher scenario1))))
   \<and> count_list (map eventId (delivered (snd (run watcher scenario1)))) ''2'' = 1
   \<and> yielded (snd (run watcher scenario1)) = fetched watcher scenario1 initial
   \<and> consumer picky entry1 = None
   \<and> consumer picky entry2 = Some ConsumerFailure
   \<and> delivered (snd (run picky scenario2)) = [entry1, entry2]
   \<and> fst (run picky scenario2) = Raised ConsumerFailure
   \<and> set (map eventId (yielded (snd (run picky scenario2)))) = {''1'', ''2''}"
proof -
  have a: "(\<forall>e. consumer watcher e = None)
   \<and> set (map eventId (delivered (snd (run watcher scenario1)))) = {''1'', ''2'', ''3''}
   \<and> distinct (map eventId (delivered (snd (run watcher scenario1))))
   \<and> count_list (map eventId (delivered (snd (run watcher scenario1)))) ''2'' = 1
   \<and> yielded (snd (run watcher scenario1)) = fetched watcher scenario1 initial"
    using exactly_once [of watcher scenario1 "''2''"] watcher_accepts
    by (simp add: scenario1_run scenario1_fetched) (auto simp: entry1_def entry2_def entry3_def)
  have d: "delivered (snd (run picky scenario2)) = [entry1, entry2]"
    by (simp add: picky_run after_entry2_def)
  have r: "fst (run picky scenario2) = Raised ConsumerFailure"
    using exactly_once [of picky scenario2 "''2''" ConsumerFailure] picky_consumer d by simp
  have y: "set (map eventId (yielded (snd (run picky scenario2)))) = {''1'', ''2''}"
    using exactly_once [of picky scenario2 "''2''" ConsumerFailure] d
    by (auto simp: entry1_def entry2_def)
  from a picky_consumer d r y show ?thesis by blast
qed

text \<open>
  C2: delivery order.  In every run the consumer is called with the first appearance of
  each distinct id among the entries drawn, in the order in which they were drawn; the
  ids delivered are the ids drawn with every repetition after the first removed.  The
  list of delivered entries is the list of the consumer's calls in their order: the
  consumer has returned normally on each entry of it but the last, on the last too
  unless the run has raised, and if it raises on the last the run ends with that
  exception, so that no call follows a call that raised.
\<close>

theorem delivery_order:
  "delivered (snd (run w evs)) = first_appearances (yielded (snd (run w evs)))
   \<and> map eventId (delivered (snd (run w evs))) =
       rev (remdups (rev (map eventId (yielded (snd (run w evs))))))
   \<and> ((\<forall>e. consumer w e = None) \<longrightarrow>
        delivered (snd (run w evs)) = first_appearances (fetched w evs initial))
   \<and> (\<forall>e \<in> set (butlast (first_appearances (yielded (snd (run w evs))))). consumer w e = None)
   \<and> ((\<forall>err. fst (run w evs) \<noteq> Raised err) \<longrightarrow>
        (\<forall>e \<in> set (first_appearances (yielded (snd (run w evs)))). consumer w e = None))
   \<and> (yielded (snd (run w evs)) \<noteq> []
        \<and> consumer w (last (first_appearances (yielded (snd (run w evs))))) = Some err
        \<longrightarrow> fst (run w evs) = Raised err)"
proof -
  let ?st = "snd (run w evs)"
  have d: "delivered ?st = first_appearances (yielded ?st)"
    using run_dedup_inv [of w evs] by (simp add: dedup_inv_def)
  have m: "map eventId (delivered ?st) = rev (remdups (rev (map eventId (yielded ?st))))"
    unfolding d by (rule map_eventId_first_appearances)
  have n: "delivered ?st \<noteq> []" if "yielded ?st \<noteq> []"
  proof
    assume "delivered ?st = []"
    then have "eventId ` set (first_appearances (yielded ?st)) = {}"
      by (simp add: d)
    then have "set (yielded ?st) = {}"
      by (simp add: set_first_appearances)
    with that show False by simp
  qed
  have f: "(\<forall>e. consumer w e = None) \<longrightarrow>
             delivered ?st = first_appearances (fetched w evs initial)"
  proof
    assume "\<forall>e. consumer w e = None"
    then have "yielded ?st = fetched w evs initial" by (rule run_yielded)
    with d show "delivered ?st = first_appearances (fetched w evs initial)" by simp
  qed
  have p1: "\<forall>e \<in> set (butlast (first_appearances (yielded ?st))). consumer w e = None"
    and p2: "(\<forall>err. fst (run w evs) \<noteq> Raised err) \<longrightarrow>
              (\<forall>e \<in> set (first_appearances (yielded ?st)). consumer w e = None)"
    and p3: "first_appearances (yielded ?st) \<noteq> []
              \<and> consumer w (last (first_appearances (yielded ?st))) = Some err
              \<longrightarrow> fst (run w evs) = Raised err"
    using run_applied [of w evs err] unfolding d by blast+
  have p4: "yielded ?st \<noteq> []
              \<and> consumer w (last (first_appearances (yielded ?st))) = Some err
              \<longrightarrow> fst (run w evs) = Raised err"
    using p3 n unfolding d by blast
  from d m f p1 p2 p4 show ?thesis
    by blast
qed

theorem delivery_order_witness:
  "(\<forall>e. consumer watcher e = None)
   \<and> delivered (snd (run watcher scenario1)) = [entry1, entry2, entry3]
   \<and> delivered (snd (run watcher scenario1)) = first_appearances (fetched watcher scenario1 initial)
   \<and> map eventId (delivered (snd (run watcher scenario1))) = [''1'', ''2'', ''3'']
   \<and> consumer picky entry1 = None
   \<and> consumer picky entry2 = Some ConsumerFailure
   \<and> yielded (snd (run picky scenario2)) = [entry1, entry2]
   \<and> first_appearances (yielded (snd (run picky scenario2))) = [entry1, entry2]
   \<and> fst (run picky scenario2) = Raised ConsumerFailure"
proof -
  have a: "(\<forall>e. consumer watcher e = None)
   \<and> delivered (snd (run watcher scenario1)) = [entry1, entry2, entry3]
   \<and> delivered (snd (run watcher scenario1)) = first_appearances (fetched watcher scenario1 initial)
   \<and> map eventId (delivered (snd (run watcher scenario1))) = [''1'', ''2'', ''3'']"
    using delivery_order [of watcher scenario1] watcher_accepts
    by (simp add: scenario1_run scenario1_fetched scenario1_first) (simp add: entry1_def entry2_def entry3_def)
  have y: "yielded (snd (run picky scenario2)) = [entry1, entry2]"
    by (simp add: picky_run after_entry2_def)
  have f: "first_appearances (yielded (snd (run picky scenario2))) = [entry1, entry2]"
    by (simp add: y picky_first)
  have r: "fst (run picky scenario2) = Raised ConsumerFailure"
    using delivery_order [of picky scenario2 ConsumerFailure, THEN conjunct2, THEN conjunct2,
        THEN conjunct2, THEN conjunct2, THEN conjunct2]
      picky_consumer
    by (simp add: y picky_first)
  from a picky_consumer y f r show ?thesis by blast
qed

subsection \<open>The cursor\<close>

lemma cursor_le_refl: "cursor_le c c"
  by (cases c) simp_all

lemma cursor_le_trans: "cursor_le a b \<Longrightarrow> cursor_le b c \<Longrightarrow> cursor_le a c"
  by (cases a; cases b; cases c) simp_all

lemma process_entry_fetches: "fetches (snd (process_entry cons e st)) = fetches st"
  by (simp add: process_entry_def Let_def)

lemma for_entries_fetches: "fetches (snd (for_entries cons es st)) = fetches st"
proof (induction es arbitrary: st)
  case Nil
  show ?case by simp
next
  case (Cons e es)
  show ?case
    using Cons.IH [of "snd (process_entry cons e st)"] process_entry_fetches [of cons e st]
    by (cases "process_entry cons e st") (auto split: option.splits)
qed

lemma process_entry_cursor:
  "cursor_le c (last_timestamp st) \<Longrightarrow> cursor_le c (Some (timestamp e)) \<Longrightarrow>
   cursor_le c (last_timestamp (snd (process_entry cons e st)))"
  by (simp add: process_entry_def Let_def)

lemma for_entries_cursor:
  "cursor_le c (last_timestamp st) \<Longrightarrow> \<forall>e \<in> set es. cursor_le c (Some (timestamp e)) \<Longrightarrow>
   cursor_le c (last_timestamp (snd (for_entries cons es st)))"
proof (induction es arbitrary: st)
  case Nil
  then show ?case by simp
next
  case (Cons e es)
  from Cons.prems have "cursor_le c (last_timestamp (snd (process_entry cons e st)))"
    by (simp add: process_entry_cursor)
  with Cons.IH [of "snd (process_entry cons e st)"] Cons.prems show ?case
    by (cases "process_entry cons e st") (auto split: option.splits)
qed

lemma poll_cursor_inv:
  assumes inv: "cursor_inv st"
    and hon: "honours_start_time (stream w) log_events"
  shows "cursor_inv (snd (poll w log_events st))"
proof -
  let ?c = "last_timestamp st"
  obtain es gen_err where f: "fetch_stream log_events (stream w) ?c = (es, gen_err)"
    by (cases "fetch_stream log_events (stream w) ?c")
  let ?st0 = "st\<lparr>fetches := fetches st @ [(stream w, ?c)]\<rparr>"
  let ?st' = "snd (for_entries (consumer w) es ?st0)"
  have bound: "\<forall>e \<in> set es. cursor_le ?c (Some (timestamp e))"
  proof (cases ?c)
    case None
    then show ?thesis by simp
  next
    case (Some t)
    with hon f show ?thesis
      by (auto simp: honours_start_time_def)
  qed
  have up: "cursor_le ?c (last_timestamp ?st')"
    using for_entries_cursor [of ?c ?st0 es "consumer w"] bound by (simp add: cursor_le_refl)
  have fs: "fetches ?st' = fetches st @ [(stream w, ?c)]"
    by (simp add: for_entries_fetches)
  have "cursor_inv ?st'"
    using inv up by (auto simp: cursor_inv_def fs sorted_wrt_append intro: cursor_le_trans)
  then show ?thesis
    by (cases "for_entries (consumer w) es ?st0") (auto simp: poll_def f Let_def split: option.splits)
qed

lemma run_loop_cursor_inv:
  "cursor_inv st \<Longrightarrow> \<forall>log_events. Check log_events \<in> set evs \<longrightarrow> honours_start_time (stream w) log_events \<Longrightarrow>
   cursor_inv (snd (run_loop w evs st))"
proof (induction w evs st rule: run_loop.induct)
  case (1 w st)
  then show ?case by simp
next
  case (2 w evs st)
  then show ?case by (simp add: stop_def)
next
  case (3 w log_events evs st)
  show ?case
  proof (cases "stopped w")
    case True
    with 3 show ?thesis by simp
  next
    case False
    have p: "cursor_inv (snd (poll w log_events st))"
      using "3.prems" by (simp add: poll_cursor_inv)
    show ?thesis
    proof (cases "poll w log_events st")
      case (Pair r st')
      with p have inv': "cursor_inv st'" by simp
      show ?thesis
      proof (cases r)
        case None
        with False Pair inv' "3.IH" "3.prems" show ?thesis by simp
      next
        case (Some err)
        with False Pair inv' show ?thesis by simp
      qed
    qed
  qed
qed

lemma poll_fetches: "fetches (snd (poll w log_events st)) = fetches st @ [(stream w, last_timestamp st)]"
proof -
  obtain es gen_err where f: "fetch_stream log_events (stream w) (last_timestamp st) = (es, gen_err)"
    by (cases "fetch_stream log_events (stream w) (last_timestamp st)")
  let ?st0 = "st\<lparr>fetches := fetches st @ [(stream w, last_timestamp st)]\<rparr>"
  have "fetches (snd (for_entries (consumer w) es ?st0)) = fetches ?st0"
    by (rule for_entries_fetches)
  then show ?thesis
    by (cases "for_entries (consumer w) es ?st0") (auto simp: poll_def f Let_def split: option.splits)
qed

lemma run_loop_first_fetch:
  "\<exists>fs. fetches (snd (run_loop w evs st)) = fetches st @ fs
        \<and> (fs = [] \<or> hd fs = (stream w, last_timestamp st))"
proof (induction w evs st rule: run_loop.induct)
  case (1 w st)
  show ?case by simp
next
  case (2 w evs st)
  then show ?case by (simp add: stop_def)
next
  case (3 w log_events evs st)
  show ?case
  proof (cases "stopped w")
    case True
    then show ?thesis by simp
  next
    case False
    note pf = poll_fetches [of w log_events st]
    show ?thesis
    proof (cases "poll w log_events st")
      case (Pair r st')
      show ?thesis
      proof (cases r)
        case None
        from "3.IH" [OF False Pair [symmetric] None] obtain fs
          where "fetches (snd (run_loop w evs st')) = fetches st' @ fs" by blast
        with False Pair None pf show ?thesis by simp
      next
        case (Some err)
        with False Pair pf show ?thesis by simp
      qed
    qed
  qed
qed

text \<open>
  C3: cursor monotonicity.  When every fetch with a \<^verbatim>\<open>start_time\<close> returns only entries
  at or after it, the values of \<^verbatim>\<open>start_time\<close> that a run passes to \<^verbatim>\<open>fetch_stream\<close>
  never decrease from one poll to the next, the first being \<^verbatim>\<open>None\<close>.
\<close>

theorem cursor_monotone:
  assumes "\<forall>log_events. Check log_events \<in> set evs \<longrightarrow> honours_start_time (stream w) log_events"
  shows "sorted_wrt cursor_le (map snd (fetches (snd (run w evs))))
         \<and> (\<forall>n. Suc n < length (fetches (snd (run w evs))) \<longrightarrow>
               cursor_le (snd (fetches (snd (run w evs)) ! n)) (snd (fetches (snd (run w evs)) ! Suc n)))
         \<and> (\<forall>c \<in> set (map snd (fetches (snd (run w evs)))). cursor_le c (last_timestamp (snd (run w evs))))
         \<and> (fetches (snd (run w evs)) = [] \<or> hd (fetches (snd (run w evs))) = (stream w, None))"
proof -
  let ?fs = "fetches (snd (run w evs))"
  have "cursor_inv initial"
    by (simp add: cursor_inv_def initial_def)
  then have inv: "cursor_inv (snd (run w evs))"
    unfolding run_def using assms by (rule run_loop_cursor_inv)
  then have sorted: "sorted_wrt cursor_le (map snd ?fs)"
    by (simp add: cursor_inv_def)
  have adj: "cursor_le (snd (?fs ! n)) (snd (?fs ! Suc n))" if "Suc n < length ?fs" for n
    using sorted_wrt_nth_less [OF sorted, of n "Suc n"] that by simp
  have first: "?fs = [] \<or> hd ?fs = (stream w, None)"
    using run_loop_first_fetch [of w evs initial] by (auto simp: run_def initial_def)
  from inv sorted adj first show ?thesis
    by (simp add: cursor_inv_def)
qed

lemma honours_remote_store:
  "\<forall>e \<in> set store. 0 \<le> timestamp e \<Longrightarrow> honours_start_time strm (remote_store store)"
  by (auto simp: honours_start_time_def fetch_stream_def build_query_def truthy_def
      remote_store_def page_events_def Let_def)

theorem cursor_monotone_witness:
  "honours_start_time (stream watcher) (remote_store [entry1, entry2])
   \<and> honours_start_time (stream watcher) (remote_store [entry1, entry2, entry3])
   \<and> map snd (fetches (snd (run watcher scenario1))) = [None, Some 101]
   \<and> sorted_wrt cursor_le (map snd (fetches (snd (run watcher scenario1))))
   \<and> cursor_le (snd (fetches (snd (run watcher scenario1)) ! 0))
        (snd (fetches (snd (run watcher scenario1)) ! Suc 0))
   \<and> last_timestamp (snd (run watcher scenario1)) = Some 105"
proof -
  have h: "\<forall>log_events. Check log_events \<in> set scenario1 \<longrightarrow> honours_start_time (stream watcher) log_events"
    by (auto simp: scenario1_def honours_remote_store entry1_def entry2_def entry3_def)
  from cursor_monotone [OF h] h show ?thesis
    by (simp add: scenario1_run) (simp add: scenario1_def)
qed

subsection \<open>The stop signal\<close>

lemma run_loop_stopped:
  "stopped w \<Longrightarrow>
   run_loop w evs st = (if (\<exists>log_events. Check log_events \<in> set evs) then Returned else Looping, st)"
proof (induction w evs st rule: run_loop.induct)
  case (1 w st)
  show ?case by simp
next
  case (2 w evs st)
  have "stopped (stop w)" by (rule stopped_stop)
  with "2.IH" show ?case by simp
next
  case (3 w log_events evs st)
  then show ?case by auto
qed

lemma run_loop_append:
  "run_loop w (evs1 @ evs2) st =
     (case run_loop w evs1 st of
        (Looping, st1) \<Rightarrow> run_loop (if CallStop \<in> set evs1 then stop w else w) evs2 st1
      | (Returned, st1) \<Rightarrow> (Returned, st1)
      | (Raised err, st1) \<Rightarrow> (Raised err, st1))"
proof (induction w evs1 st rule: run_loop.induct)
  case (1 w st)
  show ?case by simp
next
  case (2 w evs st)
  from "2.IH" have "run_loop (stop w) (evs @ evs2) st =
     (case run_loop (stop w) evs st of
        (Looping, st1) \<Rightarrow> run_loop (stop w) evs2 st1
      | (Returned, st1) \<Rightarrow> (Returned, st1)
      | (Raised err, st1) \<Rightarrow> (Raised err, st1))"
    by (simp only: stop_stop if_cancel)
  then show ?case by simp
next
  case (3 w log_events evs st)
  show ?case
  proof (cases "stopped w")
    case True
    then show ?thesis by simp
  next
    case False
    show ?thesis
    proof (cases "poll w log_events st")
      case (Pair r st')
      show ?thesis
      proof (cases r)
        case None
        with False Pair "3.IH" show ?thesis by simp
      next
        case (Some err)
        with False Pair show ?thesis by simp
      qed
    qed
  qed
qed

text \<open>
  C5: the stop signal.  With the signal set, the loop leaves at its next check and the
  state of the run stays as it is: no fetch and no call of the consumer.  If \<^verbatim>\<open>stop()\<close>
  is called before the first poll, the run returns at its first check with nothing
  fetched and nothing delivered.  A call of \<^verbatim>\<open>stop()\<close> anywhere in a schedule freezes the
  state reached before it (a call that arrives while a loop body runs stands after that
  body, which runs to its end: the body does not read the flag).  Once the thread is no
  longer alive, so that \<^verbatim>\<open>join()\<close> returns, no continuation of the schedule changes
  anything.
\<close>

theorem stop_signal:
  "(stopped w \<longrightarrow>
      run_loop w evs st = (if (\<exists>log_events. Check log_events \<in> set evs) then Returned else Looping, st))
   \<and> run (stop w) (Check log_events # evs) = (Returned, initial)
   \<and> delivered (snd (run (stop w) evs)) = [] \<and> fetches (snd (run (stop w) evs)) = []
   \<and> run_loop w (evs1 @ CallStop # evs2) st =
       (if is_alive (fst (run_loop w evs1 st)) \<and> (\<exists>log_events. Check log_events \<in> set evs2)
        then Returned else fst (run_loop w evs1 st),
        snd (run_loop w evs1 st))
   \<and> (\<not> is_alive (fst (run_loop w evs st)) \<longrightarrow> run_loop w (evs @ evs') st = run_loop w evs st)"
proof -
  have a: "stopped w \<longrightarrow>
      run_loop w evs st = (if (\<exists>log_events. Check log_events \<in> set evs) then Returned else Looping, st)"
    by (simp add: run_loop_stopped)
  have s: "stopped (stop w)" by (rule stopped_stop)
  have b: "run (stop w) (Check log_events # evs) = (Returned, initial)"
    using s by (simp add: run_def)
  have c: "delivered (snd (run (stop w) evs)) = [] \<and> fetches (snd (run (stop w) evs)) = []"
    using s by (simp add: run_def run_loop_stopped initial_def)
  have d: "run_loop w (evs1 @ CallStop # evs2) st =
       (if is_alive (fst (run_loop w evs1 st)) \<and> (\<exists>log_events. Check log_events \<in> set evs2)
        then Returned else fst (run_loop w evs1 st),
        snd (run_loop w evs1 st))"
  proof (cases "run_loop w evs1 st")
    case (Pair r st1)
    have "stopped (stop (if CallStop \<in> set evs1 then stop w else w))" by (rule stopped_stop)
    then show ?thesis
      by (cases r) (simp_all add: run_loop_append Pair run_loop_stopped is_alive_def)
  qed
  have e: "\<not> is_alive (fst (run_loop w evs st)) \<longrightarrow> run_loop w (evs @ evs') st = run_loop w evs st"
  proof (cases "run_loop w evs st")
    case (Pair r st1)
    then show ?thesis
      by (cases r) (simp_all add: run_loop_append is_alive_def)
  qed
  from a b c d e show ?thesis by blast
qed

theorem stop_signal_witness:
  "stopped (stop watcher)
   \<and> run_loop (stop watcher) scenario1 initial = (Returned, initial)
   \<and> run (stop watcher) (Check (remote_store [entry1]) # scenario1) = (Returned, initial)
   \<and> \<not> is_alive (fst (run_loop watcher scenario1 initial))
   \<and> run_loop watcher (scenario1 @ scenario1) initial = run_loop watcher scenario1 initial
   \<and> delivered (snd (run_loop watcher (scenario1 @ scenario1) initial)) = [entry1, entry2, entry3]"
proof -
  have s: "stopped (stop watcher)" by (rule stopped_stop)
  have c: "\<exists>log_events. Check log_events \<in> set scenario1"
    by (auto simp: scenario1_def)
  have d: "\<not> is_alive (fst (run_loop watcher scenario1 initial))"
    using scenario1_run by (simp add: run_def is_alive_def)
  from stop_signal [where w = "stop watcher" and evs = scenario1 and st = initial]
    stop_signal [where w = watcher and evs = scenario1 and st = initial and evs' = scenario1
      and log_events = "remote_store [entry1]"]
    s c d scenario1_run
  show ?thesis
    by (simp add: run_def)
qed

text \<open>
  C8: \<^verbatim>\<open>stop()\<close> is idempotent.  Any number of calls, one or more, leaves the watcher
  as a single call does, with the stop signal set; and in a run, a second call of
  \<^verbatim>\<open>stop()\<close> changes nothing.
\<close>

theorem stop_idempotent:
  "stop (stop w) = stop w
   \<and> (stop ^^ Suc n) w = stop w
   \<and> stopped ((stop ^^ Suc n) w)
   \<and> run_loop w (CallStop # CallStop # evs) st = run_loop w (CallStop # evs) st"
proof -
  have pow: "(stop ^^ Suc n) w = stop w"
    by (induction n) (simp_all add: stop_stop)
  show ?thesis
    unfolding pow by (simp add: stop_stop stopped_stop)
qed

subsection \<open>Failures of the remote call\<close>

text \<open>
  C6: \<^verbatim>\<open>fetch_stream\<close> does not absorb a failure.  When the paginator ends with an
  exception, the generator yields the entries of the pages produced before it and
  ends with the same exception; the poll raises (that exception, when the consumer
  has not raised before), and the run ends there, after this one fetch.
\<close>

theorem fetch_failure_propagates:
  assumes "log_events (build_query (stream w) (last_timestamp st)) = (pages, Some err)"
  shows "fetch_stream log_events (stream w) (last_timestamp st) = (concat (map page_events pages), Some err)
         \<and> fst (poll w log_events st) \<noteq> None
         \<and> ((\<forall>e. consumer w e = None) \<longrightarrow> fst (poll w log_events st) = Some err)
         \<and> (\<not> stopped w \<longrightarrow>
              (\<exists>err'. fst (run_loop w (Check log_events # evs) st) = Raised err')
              \<and> ((\<forall>e. consumer w e = None) \<longrightarrow> fst (run_loop w (Check log_events # evs) st) = Raised err)
              \<and> fetches (snd (run_loop w (Check log_events # evs) st)) =
                  fetches st @ [(stream w, last_timestamp st)])"
proof -
  let ?es = "concat (map page_events pages)"
  let ?st0 = "st\<lparr>fetches := fetches st @ [(stream w, last_timestamp st)]\<rparr>"
  have f: "fetch_stream log_events (stream w) (last_timestamp st) = (?es, Some err)"
    using assms by (simp add: fetch_stream_def)
  have p: "fst (poll w log_events st) \<noteq> None"
    by (cases "for_entries (consumer w) ?es ?st0") (auto simp: poll_def f Let_def split: option.splits)
  have q: "fst (poll w log_events st) = Some err" if "\<forall>e. consumer w e = None"
    using for_entries_no_raise [OF that, of ?es ?st0]
    by (cases "for_entries (consumer w) ?es ?st0") (auto simp: poll_def f Let_def split: option.splits)
  have r: "(\<exists>err'. fst (run_loop w (Check log_events # evs) st) = Raised err')
           \<and> ((\<forall>e. consumer w e = None) \<longrightarrow> fst (run_loop w (Check log_events # evs) st) = Raised err)
           \<and> fetches (snd (run_loop w (Check log_events # evs) st)) =
               fetches st @ [(stream w, last_timestamp st)]"
    if "\<not> stopped w"
    using that p q poll_fetches [of w log_events st]
    by (cases "poll w log_events st") (auto split: option.splits)
  from f p q r show ?thesis by blast
qed

theorem fetch_failure_propagates_witness:
  "unreachable (build_query (stream watcher) (last_timestamp initial)) = ([], Some SourceUnavailable)
   \<and> (\<forall>e. consumer watcher e = None)
   \<and> \<not> stopped watcher
   \<and> fetch_stream unreachable (stream watcher) (last_timestamp initial) = ([], Some SourceUnavailable)
   \<and> fst (run_loop watcher [Check unreachable, Check (remote_store [entry1])] initial) = Raised SourceUnavailable
   \<and> fetches (snd (run_loop watcher [Check unreachable, Check (remote_store [entry1])] initial)) = [(''job'', None)]"
proof -
  have h: "unreachable (build_query (stream watcher) (last_timestamp initial)) = ([], Some SourceUnavailable)"
    by (simp add: unreachable_def)
  have n: "\<not> stopped watcher"
    by (simp add: watcher_def init_def)
  from fetch_failure_propagates [where log_events = unreachable and w = watcher and st = initial
      and pages = "[]" and err = SourceUnavailable and evs = "[Check (remote_store [entry1])]", OF h]
    h n watcher_accepts
  show ?thesis
    by (simp add: page_events_def) (simp add: initial_def watcher_def init_def)
qed

subsection \<open>The query\<close>

lemma start_time_nonzero: "t \<noteq> 0 \<Longrightarrow> startTime (build_query strm (Some t)) = Some t"
  by (simp add: build_query_def truthy_def)

lemma start_time_honoured:
  "t \<noteq> 0 \<Longrightarrow> \<forall>e \<in> set (fst (fetch_stream (remote_store store) strm (Some t))). t \<le> timestamp e"
  by (simp add: fetch_stream_def build_query_def truthy_def remote_store_def page_events_def)

text \<open>
  C4, at \<^verbatim>\<open>start_time = 0\<close>: the test \<^verbatim>\<open>if start_time:\<close> is false for \<^verbatim>\<open>0\<close>, so the query
  carries no \<^verbatim>\<open>startTime\<close> and is the query of a call without \<^verbatim>\<open>start_time\<close>; a store
  that holds an entry with a negative timestamp returns it.
\<close>

theorem start_time_zero_dropped:
  "startTime (build_query strm (Some 0)) = None
   \<and> build_query strm (Some 0) = build_query strm None
   \<and> fetch_stream log_events strm (Some 0) = fetch_stream log_events strm None
   \<and> fetch_stream (remote_store [\<lparr>eventId = ''0'', timestamp = - 1, message = ''early''\<rparr>]) strm (Some 0) =
       ([\<lparr>eventId = ''0'', timestamp = - 1, message = ''early''\<rparr>], None)"
  by (simp add: fetch_stream_def build_query_def truthy_def remote_store_def page_events_def)

subsection \<open>Generator objects\<close>

text \<open>
  Each \<^verbatim>\<open>next\<close> gives the first of what the object has still to yield, or its ending, and
  leaves the rest.
\<close>

lemma resume_expected:
  "expected (es @ concat (map page_events ps), err) (Suc n) =
     fst (resume es ps err) # expected (contents (snd (resume es ps err))) n"
  by (induction es ps err rule: resume.induct) simp_all

lemma next_entry_expected:
  "expected (contents g) (Suc n) = fst (next_entry g) # expected (contents (snd (next_entry g))) n"
proof (cases g)
  case (Created log_events strm start_time)
  obtain pages err where a: "log_events (build_query strm start_time) = (pages, err)"
    by (cases "log_events (build_query strm start_time)")
  with Created resume_expected [of "[]" pages err n] show ?thesis
    by (simp add: fetch_stream_def)
next
  case (Suspended es ps err)
  with resume_expected [of es ps err n] show ?thesis by simp
next
  case Finished
  then show ?thesis by simp
qed

text \<open>
  In any interleaving of \<^verbatim>\<open>next\<close> calls, the outcomes at one address are those of the
  object at that address alone.
\<close>

lemma nexts_outcomes:
  "a < length h \<Longrightarrow>
   outcomes_at a (fst (nexts h as)) = expected (contents (h ! a)) (count_list as a)"
proof (induction as arbitrary: h)
  case Nil
  show ?case by (simp add: outcomes_at_def)
next
  case (Cons b as)
  show ?case
  proof (cases "b < length h")
    case False
    with Cons have "b \<noteq> a" by auto
    with False Cons show ?thesis by (simp add: next_at_def)
  next
    case True
    obtain out g' where n: "next_entry (h ! b) = (out, g')"
      by (cases "next_entry (h ! b)")
    let ?h' = "h[b := g']"
    have len: "a < length ?h'" using Cons.prems by simp
    obtain log h'' where r: "nexts ?h' as = (log, h'')"
      by (cases "nexts ?h' as")
    from Cons.IH [OF len] r
    have ih: "outcomes_at a log = expected (contents (?h' ! a)) (count_list as a)" by simp
    show ?thesis
    proof (cases "b = a")
      case True
      with next_entry_expected [of "h ! a" "count_list as a"] n Cons.prems ih
      show ?thesis
        using \<open>b < length h\<close> r by (simp add: next_at_def outcomes_at_def)
    next
      case False
      with ih True n r show ?thesis
        by (simp add: next_at_def outcomes_at_def)
    qed
  qed
qed

lemma nexts_length: "length (snd (nexts h as)) = length h"
proof (induction as arbitrary: h)
  case Nil
  show ?case by simp
next
  case (Cons b as)
  show ?case
  proof (cases "next_at h b")
    case None
    with Cons show ?thesis by simp
  next
    case (Some p)
    obtain out h' where p: "p = (out, h')" by (cases p)
    with Some have "length h' = length h"
      by (auto simp: next_at_def split: if_splits prod.splits)
    with Cons [of h'] Some p show ?thesis
      by (cases "nexts h' as") simp
  qed
qed

lemma expected_all: "expected (es, r) (Suc (length es)) = map Yield es @ [ending r]"
  by (induction es) (auto simp: ending_def split: option.splits)

text \<open>
  C9: \<^verbatim>\<open>fetch_stream\<close> is restartable and keeps no state between calls.  A call made in
  any heap, whatever generators earlier calls have left there and however far each has
  been advanced, leaves those objects as they are and makes a new one; under any
  interleaving of \<^verbatim>\<open>next\<close> calls on the objects of the heap, the outcomes of the new
  object are the entries of the paginator's answer to the call's own query from its first
  page on, in order, followed by its ending.  A second call with the same stream and
  \<^verbatim>\<open>start_time\<close>, made after the first and after any such \<^verbatim>\<open>next\<close> calls, against a remote
  store that answers the query alike, has the same outcomes as the first; as many
  \<^verbatim>\<open>next\<close> calls as there are entries, and one more, give all of them and the ending.
\<close>

theorem fetch_stream_restartable:
  "take (length h) (snd (call_fetch_stream h log_events strm start_time)) = h
   \<and> outcomes_at (fst (call_fetch_stream h log_events strm start_time))
         (fst (nexts (snd (call_fetch_stream h log_events strm start_time)) as)) =
       expected (fetch_stream log_events strm start_time)
         (count_list as (fst (call_fetch_stream h log_events strm start_time)))
   \<and> (log_events' (build_query strm start_time) = log_events (build_query strm start_time) \<longrightarrow>
        outcomes_at
          (fst (call_fetch_stream (snd (nexts (snd (call_fetch_stream h log_events strm start_time)) as))
                  log_events' strm start_time))
          (fst (nexts
                  (snd (call_fetch_stream (snd (nexts (snd (call_fetch_stream h log_events strm start_time)) as))
                          log_events' strm start_time))
                  as')) =
        expected (fetch_stream log_events strm start_time)
          (count_list as'
             (fst (call_fetch_stream (snd (nexts (snd (call_fetch_stream h log_events strm start_time)) as))
                     log_events' strm start_time))))
   \<and> expected (fetch_stream log_events strm start_time)
         (Suc (length (fst (fetch_stream log_events strm start_time)))) =
       map Yield (fst (fetch_stream log_events strm start_time)) @
         [ending (snd (fetch_stream log_events strm start_time))]"
proof -
  have one: "outcomes_at (fst (call_fetch_stream h0 le strm start_time))
       (fst (nexts (snd (call_fetch_stream h0 le strm start_time)) as0)) =
     expected (fetch_stream le strm start_time)
       (count_list as0 (fst (call_fetch_stream h0 le strm start_time)))" for h0 le as0
  proof -
    have "length h0 < length (h0 @ [Created le strm start_time])" by simp
    from nexts_outcomes [OF this, of as0] show ?thesis
      by (simp add: call_fetch_stream_def)
  qed
  have same: "fetch_stream log_events' strm start_time = fetch_stream log_events strm start_time"
    if "log_events' (build_query strm start_time) = log_events (build_query strm start_time)"
    using that by (simp add: fetch_stream_def)
  have all: "expected (fetch_stream log_events strm start_time)
         (Suc (length (fst (fetch_stream log_events strm start_time)))) =
       map Yield (fst (fetch_stream log_events strm start_time)) @
         [ending (snd (fetch_stream log_events strm start_time))]"
    using expected_all [of "fst (fetch_stream log_events strm start_time)"
        "snd (fetch_stream log_events strm start_time)"]
    by simp
  have keep: "take (length h) (snd (call_fetch_stream h log_events strm start_time)) = h"
    by (simp add: call_fetch_stream_def)
  from keep one [of h log_events as]
    one [of "snd (nexts (snd (call_fetch_stream h log_events strm start_time)) as)" log_events' as']
    same all
  show ?thesis by simp
qed

theorem fetch_stream_restartable_witness:
  "remote_store [entry0, entry1, entry2] (build_query ''job'' (Some 100)) =
     remote_store [entry1, entry2] (build_query ''job'' (Some 100))
   \<and> fetch_stream (remote_store [entry1, entry2]) ''job'' (Some 100) = ([entry1, entry2], None)
   \<and> outcomes_at 0
        (fst (nexts (snd (call_fetch_stream [] (remote_store [entry1, entry2]) ''job'' (Some 100))) [0])) =
       [Yield entry1]
   \<and> outcomes_at 1
        (fst (nexts
                (snd (call_fetch_stream
                        (snd (nexts (snd (call_fetch_stream [] (remote_store [entry1, entry2]) ''job'' (Some 100))) [0]))
                        (remote_store [entry0, entry1, entry2]) ''job'' (Some 100)))
                [1, 0, 1, 1, 0])) =
       [Yield entry1, Yield entry2, StopIteration]"
proof -
  have q: "remote_store [entry0, entry1, entry2] (build_query ''job'' (Some 100)) =
             remote_store [entry1, entry2] (build_query ''job'' (Some 100))"
    by (simp add: remote_store_def build_query_def truthy_def entry0_def entry1_def entry2_def)
  have v: "fetch_stream (remote_store [entry1, entry2]) ''job'' (Some 100) = ([entry1, entry2], None)"
    by (simp add: fetch_stream_def remote_store_def build_query_def truthy_def page_events_def
        entry1_def entry2_def)
  have a0: "fst (call_fetch_stream [] (remote_store [entry1, entry2]) ''job'' (Some 100)) = 0"
    by (simp add: call_fetch_stream_def)
  have a1: "fst (call_fetch_stream
                  (snd (nexts (snd (call_fetch_stream [] (remote_store [entry1, entry2]) ''job'' (Some 100))) [0]))
                  (remote_store [entry0, entry1, entry2]) ''job'' (Some 100)) = 1"
    by (simp only: call_fetch_stream_def fst_conv snd_conv nexts_length) simp
  note t = fetch_stream_restartable [where h = "[]" and log_events = "remote_store [entry1, entry2]"
      and strm = "''job''" and start_time = "Some 100" and as = "[0]"
      and log_events' = "remote_store [entry0, entry1, entry2]" and as' = "[1, 0, 1, 1, 0]"]
  have e1: "expected ([entry1, entry2], None) (count_list [0] (0::nat)) = [Yield entry1]"
    by simp
  have e3: "expected ([entry1, entry2], None) (count_list [1, 0, 1, 1, 0] (1::nat)) =
              [Yield entry1, Yield entry2, StopIteration]"
    by (simp add: eval_nat_numeral)
  have first: "outcomes_at 0
        (fst (nexts (snd (call_fetch_stream [] (remote_store [entry1, entry2]) ''job'' (Some 100))) [0])) =
       [Yield entry1]"
    using t [THEN conjunct2, THEN conjunct1] by (simp only: a0 v e1)
  have second: "outcomes_at 1
        (fst (nexts
                (snd (call_fetch_stream
                        (snd (nexts (snd (call_fetch_stream [] (remote_store [entry1, entry2]) ''job'' (Some 100))) [0]))
                        (remote_store [entry0, entry1, entry2]) ''job'' (Some 100)))
                [1, 0, 1, 1, 0])) =
       [Yield entry1, Yield entry2, StopIteration]"
    using t [THEN conjunct2, THEN conjunct2, THEN conjunct1, rule_format, OF q]
    by (simp only: a1 v e3)
  from q v first second show ?thesis by blast
qed

subsection \<open>What a step changes\<close>

lemma process_entry_last_inv: "last_inv st \<Longrightarrow> last_inv (snd (process_entry cons e st))"
  by (simp add: last_inv_def process_entry_def Let_def)

lemma run_last_inv: "last_inv (snd (run w evs))"
  unfolding run_def
proof (rule run_loop_invariant [where I = last_inv])
  show "last_inv initial"
    by (simp add: last_inv_def initial_def)
next
  fix w log_events st
  assume "last_inv st"
  then show "last_inv (snd (poll w log_events st))"
  proof (rule poll_invariant [where I = last_inv, rotated 2])
    show "\<And>cons e st. last_inv st \<Longrightarrow> last_inv (snd (process_entry cons e st))"
      by (rule process_entry_last_inv)
    show "\<And>st fs. last_inv st \<Longrightarrow> last_inv (st\<lparr>fetches := fs\<rparr>)"
      by (simp add: last_inv_def)
  qed
qed

text \<open>
  C7: what a step leaves alone.  An entry whose id is in the seen-set changes nothing
  but the record that it was drawn: no call of the consumer, the cursor and the seen-set
  as before.  A poll whose fetch yields nothing changes nothing but the record of the
  fetch.  When an entry changes the cursor, the new cursor is the timestamp of that
  entry, and the entry is delivered in that step; so in every run the cursor is the
  timestamp of the entry delivered last, and \<^verbatim>\<open>None\<close> when none has been.
\<close>

theorem unchanged_by_seen_and_empty:
  "(eventId e \<in> consumed st \<longrightarrow>
      process_entry cons e st = (None, st\<lparr>yielded := yielded st @ [e]\<rparr>))
   \<and> (fetch_stream log_events (stream w) (last_timestamp st) = ([], gen_err) \<longrightarrow>
        poll w log_events st = (gen_err, st\<lparr>fetches := fetches st @ [(stream w, last_timestamp st)]\<rparr>))
   \<and> (last_timestamp (snd (process_entry cons e st)) \<noteq> last_timestamp st \<longrightarrow>
        last_timestamp (snd (process_entry cons e st)) = Some (timestamp e)
        \<and> delivered (snd (process_entry cons e st)) = delivered st @ [e])
   \<and> last_timestamp (snd (run w evs)) =
       (if delivered (snd (run w evs)) = [] then None
        else Some (timestamp (last (delivered (snd (run w evs))))))"
proof -
  have a: "eventId e \<in> consumed st \<longrightarrow>
      process_entry cons e st = (None, st\<lparr>yielded := yielded st @ [e]\<rparr>)"
    by (simp add: process_entry_def Let_def)
  have b: "fetch_stream log_events (stream w) (last_timestamp st) = ([], gen_err) \<longrightarrow>
        poll w log_events st = (gen_err, st\<lparr>fetches := fetches st @ [(stream w, last_timestamp st)]\<rparr>)"
    by (simp add: poll_def Let_def)
  have c: "last_timestamp (snd (process_entry cons e st)) \<noteq> last_timestamp st \<longrightarrow>
        last_timestamp (snd (process_entry cons e st)) = Some (timestamp e)
        \<and> delivered (snd (process_entry cons e st)) = delivered st @ [e]"
    by (simp add: process_entry_def Let_def)
  have d: "last_timestamp (snd (run w evs)) =
       (if delivered (snd (run w evs)) = [] then None
        else Some (timestamp (last (delivered (snd (run w evs))))))"
    using run_last_inv [of w evs] by (simp only: last_inv_def)
  from a b c d show ?thesis by blast
qed

theorem unchanged_by_seen_and_empty_witness:
  "eventId entry2 \<in> consumed after_entry2
   \<and> process_entry accept entry2 after_entry2 =
       (None, after_entry2\<lparr>yielded := [entry1, entry2, entry2]\<rparr>)
   \<and> fetch_stream (remote_store []) (stream watcher) (last_timestamp after_entry2) = ([], None)
   \<and> poll watcher (remote_store []) after_entry2 =
       (None, after_entry2\<lparr>fetches := [(''job'', None), (''job'', Some 101)]\<rparr>)
   \<and> last_timestamp (snd (process_entry accept entry3 after_entry2)) \<noteq> last_timestamp after_entry2
   \<and> last_timestamp (snd (process_entry accept entry3 after_entry2)) = Some 105
   \<and> delivered (snd (process_entry accept entry3 after_entry2)) = [entry1, entry2, entry3]
   \<and> last_timestamp (snd (run watcher scenario1)) = Some (timestamp entry3)"
proof -
  have a: "eventId entry2 \<in> consumed after_entry2"
    by (simp add: after_entry2_def entry2_def)
  have b: "fetch_stream (remote_store []) (stream watcher) (last_timestamp after_entry2) = ([], None)"
    by (simp add: fetch_stream_def remote_store_def page_events_def)
  have c: "last_timestamp (snd (process_entry accept entry3 after_entry2)) \<noteq> last_timestamp after_entry2"
    by (simp add: process_entry_def Let_def after_entry2_def entry3_def)
  from unchanged_by_seen_and_empty [where e = entry2 and st = after_entry2 and cons = accept
      and log_events = "remote_store []" and w = watcher and gen_err = None and evs = scenario1]
    unchanged_by_seen_and_empty [where e = entry3 and st = after_entry2 and cons = accept
      and log_events = "remote_store []" and w = watcher and gen_err = None and evs = scenario1]
    a b c
  show ?thesis
    by (simp add: scenario1_run) (simp add: after_entry2_def watcher_def init_def entry3_def)
qed

subsection \<open>A consumer that raises\<close>

lemma for_entries_append:
  "for_entries cons (xs @ ys) st =
     (case for_entries cons xs st of
        (None, st1) \<Rightarrow> for_entries cons ys st1
      | (Some err, st1) \<Rightarrow> (Some err, st1))"
proof (induction xs arbitrary: st)
  case Nil
  show ?case by simp
next
  case (Cons x xs)
  show ?case
  proof (cases "process_entry cons x st")
    case (Pair r st')
    with Cons.IH [of st'] show ?thesis
      by (cases r) simp_all
  qed
qed

text \<open>
  C10: a new entry is recorded before the consumer is called.  For an entry whose id is
  not in the seen-set, the step ends in the state that has the id in the seen-set, the
  cursor at the entry's timestamp and the entry among the consumer's calls, whatever the
  consumer does.  When the consumer raises on it, the \<^verbatim>\<open>for\<close> loop, the poll and the
  run end with that exception in this state; the thread is no longer alive, and an entry
  with this id drawn in this state would be skipped.
\<close>

theorem recorded_before_consumer:
  assumes "eventId e \<notin> consumed st"
  shows "(let st' = st\<lparr>yielded := yielded st @ [e],
                        consumed := insert (eventId e) (consumed st),
                        last_timestamp := Some (timestamp e),
                        delivered := delivered st @ [e]\<rparr>
          in process_entry cons e st = (cons e, st')
             \<and> eventId e \<in> consumed st'
             \<and> process_entry cons' e st' = (None, st'\<lparr>yielded := yielded st' @ [e]\<rparr>)
             \<and> (cons e = Some err \<longrightarrow> for_entries cons (e # post) st = (Some err, st'))
             \<and> (\<not> stopped w \<and> cons = consumer w \<and> cons e = Some err
                 \<and> fetch_stream log_events (stream w) (last_timestamp st0) = (pre @ e # post, gen_err)
                 \<and> for_entries cons pre (st0\<lparr>fetches := fetches st0 @ [(stream w, last_timestamp st0)]\<rparr>) = (None, st)
                 \<longrightarrow> run_loop w (Check log_events # evs) st0 = (Raised err, st')
                      \<and> \<not> is_alive (fst (run_loop w (Check log_events # evs) st0))))"
proof -
  define st' where "st' = st\<lparr>yielded := yielded st @ [e],
                        consumed := insert (eventId e) (consumed st),
                        last_timestamp := Some (timestamp e),
                        delivered := delivered st @ [e]\<rparr>"
  have a: "process_entry cons e st = (cons e, st')"
    using assms by (simp add: process_entry_def Let_def st'_def)
  have b: "eventId e \<in> consumed st'"
    by (simp add: st'_def)
  have c: "process_entry cons' e st' = (None, st'\<lparr>yielded := yielded st' @ [e]\<rparr>)"
    using b by (simp add: process_entry_def Let_def)
  have d: "for_entries cons (e # post) st = (Some err, st')" if "cons e = Some err"
    using that a by simp
  have r: "run_loop w (Check log_events # evs) st0 = (Raised err, st')
           \<and> \<not> is_alive (fst (run_loop w (Check log_events # evs) st0))"
    if "\<not> stopped w" and "cons = consumer w" and "cons e = Some err"
      and f: "fetch_stream log_events (stream w) (last_timestamp st0) = (pre @ e # post, gen_err)"
      and p: "for_entries cons pre (st0\<lparr>fetches := fetches st0 @ [(stream w, last_timestamp st0)]\<rparr>) = (None, st)"
  proof -
    have "for_entries cons (pre @ e # post) (st0\<lparr>fetches := fetches st0 @ [(stream w, last_timestamp st0)]\<rparr>)
            = (Some err, st')"
      using d [OF that(3)] p by (simp add: for_entries_append)
    with that(1,2) f have "poll w log_events st0 = (Some err, st')"
      by (simp add: poll_def Let_def)
    with that(1) show ?thesis
      by (simp add: is_alive_def)
  qed
  from a b c d r show ?thesis
    unfolding Let_def st'_def [symmetric] by blast
qed

theorem recorded_before_consumer_witness:
  "eventId entry2 \<notin> consumed after_entry1
   \<and> \<not> stopped picky
   \<and> consumer picky entry2 = Some ConsumerFailure
   \<and> fetch_stream (remote_store [entry1, entry2, entry3]) (stream picky) (last_timestamp initial) =
       ([entry1] @ entry2 # [entry3], None)
   \<and> for_entries (consumer picky) [entry1]
        (initial\<lparr>fetches := fetches initial @ [(stream picky, last_timestamp initial)]\<rparr>) = (None, after_entry1)
   \<and> process_entry (consumer picky) entry2 after_entry1 = (Some ConsumerFailure, after_entry2)
   \<and> run picky [Check (remote_store [entry1, entry2, entry3]), Check (remote_store [entry1, entry2, entry3])] =
       (Raised ConsumerFailure, after_entry2)
   \<and> process_entry accept entry2 after_entry2 = (None, after_entry2\<lparr>yielded := [entry1, entry2, entry2]\<rparr>)"
proof -
  have a: "eventId entry2 \<notin> consumed after_entry1"
    by (simp add: after_entry1_def entry2_def)
  have b: "\<not> stopped picky"
    by (simp add: picky_def init_def)
  have c: "consumer picky entry2 = Some ConsumerFailure"
    by (simp add: picky_def init_def reject_def entry2_def)
  have d: "fetch_stream (remote_store [entry1, entry2, entry3]) (stream picky) (last_timestamp initial) =
       ([entry1] @ entry2 # [entry3], None)"
    by (simp add: fetch_stream_def remote_store_def build_query_def truthy_def page_events_def initial_def)
  have e: "for_entries (consumer picky) [entry1]
        (initial\<lparr>fetches := fetches initial @ [(stream picky, last_timestamp initial)]\<rparr>) = (None, after_entry1)"
    by (simp add: process_entry_def Let_def initial_def picky_def init_def reject_def after_entry1_def entry1_def)
  have u: "after_entry1\<lparr>yielded := yielded after_entry1 @ [entry2],
                        consumed := insert (eventId entry2) (consumed after_entry1),
                        last_timestamp := Some (timestamp entry2),
                        delivered := delivered after_entry1 @ [entry2]\<rparr> = after_entry2"
    by (simp add: after_entry1_def after_entry2_def entry2_def)
  from recorded_before_consumer [OF a, where cons = "consumer picky" and cons' = accept
      and err = ConsumerFailure and post = "[entry3]" and w = picky
      and log_events = "remote_store [entry1, entry2, entry3]" and ?st0.0 = initial and pre = "[entry1]"
      and gen_err = None and evs = "[Check (remote_store [entry1, entry2, entry3])]"]
    a b c d e
  show ?thesis
    unfolding Let_def u by (simp add: run_def) (simp add: after_entry2_def)
qed

end
